theory Spec2Isabelle
  imports Main "HOL-Library.Word" "HOL-Library.AList"
begin

section \<open>The message journal of the consensus engine\<close>

text \<open>
  A shallow embedding of \<^verbatim>\<open>blockchain/consensus/_internal/journal.py\<close> (class
  \<^verbatim>\<open>MessageLog\<close>) and of the classes \<^verbatim>\<open>Vote\<close> and \<^verbatim>\<open>Commit\<close> of
  \<^verbatim>\<open>blockchain/models.py\<close>.

  The wire messages (\<^verbatim>\<open>peer_pb2\<close>) and \<^verbatim>\<open>get_tx_hash\<close> are generated or
  live in modules that are not part of the sources at hand. The messages are modelled as
  records holding the fields the journal reads; a transaction is a value of a type
  parameter \<open>'tx\<close>, and \<^verbatim>\<open>get_tx_hash\<close> is a parameter \<open>txh\<close> of the functions
  that call it.
\<close>

subsection \<open>Data\<close>

type_synonym bytes = "8 word list"

text \<open>
  \<^verbatim>\<open>Vote\<close> and \<^verbatim>\<open>Commit\<close>: a public key and a target, which is a block hash or
  \<^verbatim>\<open>None\<close>. Both classes define \<^verbatim>\<open>__eq__\<close> and \<^verbatim>\<open>__hash__\<close> on the public key alone.
\<close>

datatype vote = Vote (vote_pubkey: bytes) (vote_target: "bytes option")

datatype commit = Commit (commit_pubkey: bytes) (commit_target: "bytes option")

definition vote_eq :: "vote \<Rightarrow> vote \<Rightarrow> bool" where
  "vote_eq v w = (vote_pubkey v = vote_pubkey w)"

definition commit_eq :: "commit \<Rightarrow> commit \<Rightarrow> bool" where
  "commit_eq c d = (commit_pubkey c = commit_pubkey d)"

text \<open>
  A Python \<^verbatim>\<open>set[Vote]\<close> is a list of the votes it holds. Membership and
  \<^verbatim>\<open>set.add\<close> go through \<^verbatim>\<open>__eq__\<close>: adding an element equal to one already
  held leaves the set as it is. \<^verbatim>\<open>len\<close> and \<^verbatim>\<open>filter\<close> read the list.
\<close>

definition vote_in :: "vote \<Rightarrow> vote list \<Rightarrow> bool" where
  "vote_in v vs = list_ex (vote_eq v) vs"

definition vote_set_add :: "vote \<Rightarrow> vote list \<Rightarrow> vote list" where
  "vote_set_add v vs = (if vote_in v vs then vs else vs @ [v])"

definition commit_in :: "commit \<Rightarrow> commit list \<Rightarrow> bool" where
  "commit_in c cs = list_ex (commit_eq c) cs"

definition commit_set_add :: "commit \<Rightarrow> commit list \<Rightarrow> commit list" where
  "commit_set_add c cs = (if commit_in c cs then cs else cs @ [c])"

text \<open>
  A block, as far as the journal reads it: \<^verbatim>\<open>block.header.hash\<close> and
  \<^verbatim>\<open>block.body.transactions\<close>.
\<close>

record 'tx block =
  header_hash :: bytes
  body_transactions :: "'tx list"

text \<open>
  The three messages. The hash of a prevote or precommit is a block hash or nil
  (\<open>None\<close>); \<^verbatim>\<open>invalid_txs\<close> is a repeated field, hence a list that may hold a hash
  more than once.
\<close>

record 'tx propose_block_request =
  pr_round :: int
  pr_block :: "'tx block"

record prevote_message =
  pv_round :: int
  pv_pubkey :: bytes
  pv_hash :: "bytes option"
  pv_invalid_txs :: "bytes list"

record precommit_message =
  pc_round :: int
  pc_pubkey :: bytes
  pc_hash :: "bytes option"

datatype 'tx message =
    ProposeBlockRequest "'tx propose_block_request"
  | PrevoteMessage prevote_message
  | PrecommitMessage precommit_message

text \<open>
  A tally table of one round is a Python \<^verbatim>\<open>dict[bytes, int]\<close>, read in insertion order
  by \<^verbatim>\<open>items()\<close>: an association list, looked up with \<^const>\<open>map_of\<close> and written with
  \<^const>\<open>AList.update\<close>, which replaces the value of a key in place and appends a new key at
  the end. The dictionaries keyed by round and by block hash are only looked up, tested
  and written at one key: they are maps.
\<close>

type_synonym tally = "(bytes \<times> int) list"

record 'tx message_log =
  prevotes :: "int \<rightharpoonup> vote list"
  precommits :: "int \<rightharpoonup> commit list"
  proposals :: "bytes \<rightharpoonup> 'tx block"
  tx_whitelist :: "int \<rightharpoonup> tally"
  tx_blacklist :: "int \<rightharpoonup> tally"

datatype error = KeyError

subsection \<open>Construction and reset\<close>

definition init_log :: "'tx message_log" where
  "init_log = \<lparr>prevotes = Map.empty, precommits = Map.empty, proposals = Map.empty,
     tx_whitelist = Map.empty, tx_blacklist = Map.empty\<rparr>"

definition reset :: "'tx message_log \<Rightarrow> 'tx message_log" where
  "reset s = s\<lparr>prevotes := Map.empty, precommits := Map.empty, proposals := Map.empty,
     tx_whitelist := Map.empty, tx_blacklist := Map.empty\<rparr>"

subsection \<open>Queries\<close>

text \<open>\<^verbatim>\<open>d.get(round, [])\<close> on a dictionary of sets or of tables.\<close>

definition get_or_empty :: "('k \<rightharpoonup> 'a list) \<Rightarrow> 'k \<Rightarrow> 'a list" where
  "get_or_empty m k = (case m k of None \<Rightarrow> [] | Some xs \<Rightarrow> xs)"

definition count_prevotes :: "'tx message_log \<Rightarrow> int \<Rightarrow> int" where
  "count_prevotes s r = int (length (get_or_empty (prevotes s) r))"

definition count_precommits :: "'tx message_log \<Rightarrow> int \<Rightarrow> int" where
  "count_precommits s r = int (length (get_or_empty (precommits s) r))"

definition count_prevotes_for :: "'tx message_log \<Rightarrow> int \<Rightarrow> bytes option \<Rightarrow> int" where
  "count_prevotes_for s r h =
     int (length (filter (\<lambda>vote. vote_target vote = h) (get_or_empty (prevotes s) r)))"

definition count_precommits_for :: "'tx message_log \<Rightarrow> int \<Rightarrow> bytes option \<Rightarrow> int" where
  "count_precommits_for s r h =
     int (length (filter (\<lambda>commit. commit_target commit = h) (get_or_empty (precommits s) r)))"

text \<open>
  \<^verbatim>\<open>self.proposals.get(hash, None)\<close>. The keys of \<^verbatim>\<open>proposals\<close> are block hashes, so
  the nil hash is never found.
\<close>

definition get_candidate :: "'tx message_log \<Rightarrow> bytes option \<Rightarrow> 'tx block option" where
  "get_candidate s h = (case h of None \<Rightarrow> None | Some k \<Rightarrow> proposals s k)"

definition has_precommit_quorum :: "'tx message_log \<Rightarrow> int \<Rightarrow> bytes option \<Rightarrow> int \<Rightarrow> bool" where
  "has_precommit_quorum s r t threshold = (count_precommits_for s r t \<ge> threshold)"

definition has_prevote_quorum :: "'tx message_log \<Rightarrow> int \<Rightarrow> bytes option \<Rightarrow> int \<Rightarrow> bool" where
  "has_prevote_quorum s r t threshold = (count_prevotes_for s r t \<ge> threshold)"

text \<open>
  \<^verbatim>\<open>get_invalid_txs\<close> and \<^verbatim>\<open>get_valid_txs\<close> return a lazy \<^verbatim>\<open>map\<close> over the items of
  the table of the round, or of \<^verbatim>\<open>{}\<close> when the round has none: here, the list of what it
  yields when it is consumed at once.
\<close>

definition get_invalid_txs :: "'tx message_log \<Rightarrow> int \<Rightarrow> int \<Rightarrow> bytes list" where
  "get_invalid_txs s r threshold =
     map fst (filter (\<lambda>x. snd x \<ge> threshold) (get_or_empty (tx_blacklist s) r))"

definition get_valid_txs :: "'tx message_log \<Rightarrow> int \<Rightarrow> int \<Rightarrow> bytes list" where
  "get_valid_txs s r threshold =
     map fst (filter (\<lambda>x. snd x \<ge> threshold) (get_or_empty (tx_whitelist s) r))"

subsection \<open>Recording messages\<close>

definition add_proposal ::
  "'tx propose_block_request \<Rightarrow> 'tx message_log \<Rightarrow> bool \<times> 'tx message_log" where
  "add_proposal proposal s =
     (let h = header_hash (pr_block proposal) in
      if proposals s h \<noteq> None then (False, s)
      else (True, s\<lparr>proposals := (proposals s)(h \<mapsto> pr_block proposal)\<rparr>))"

text \<open>
  \<^verbatim>\<open>if round not in d: d[round] = set()\<close>, together with the set then found at
  \<^verbatim>\<open>d[round]\<close>.
\<close>

definition open_round :: "int \<Rightarrow> (int \<rightharpoonup> 'a list) \<Rightarrow> (int \<rightharpoonup> 'a list) \<times> 'a list" where
  "open_round r m = (case m r of None \<Rightarrow> (m(r \<mapsto> []), []) | Some xs \<Rightarrow> (m, xs))"

definition add_precommit ::
  "precommit_message \<Rightarrow> 'tx message_log \<Rightarrow> bool \<times> 'tx message_log" where
  "add_precommit precommit s =
     (let (pcs, cs) = open_round (pc_round precommit) (precommits s);
          s1 = s\<lparr>precommits := pcs\<rparr>;
          commit = Commit (pc_pubkey precommit) (pc_hash precommit)
      in if commit_in commit cs then (False, s1)
         else (True, s1\<lparr>precommits := pcs(pc_round precommit \<mapsto> commit_set_add commit cs)\<rparr>))"

text \<open>
  \<^verbatim>\<open>set(xs)\<close> of a list of hashes, as the list of its elements, each once. The order in
  which Python iterates a set of byte strings is not fixed; the tallies do not depend on it.
\<close>

definition py_set :: "bytes list \<Rightarrow> bytes list" where
  "py_set xs = remdups xs"

definition set_minus :: "bytes list \<Rightarrow> bytes list \<Rightarrow> bytes list" where
  "set_minus xs ys = filter (\<lambda>x. x \<notin> set ys) xs"

text \<open>\<^verbatim>\<open>d[tx] += 1\<close> on one table: a missing key raises.\<close>

definition dict_incr :: "bytes \<Rightarrow> tally \<Rightarrow> error + tally" where
  "dict_incr tx d =
     (case map_of d tx of None \<Rightarrow> Inl KeyError | Some c \<Rightarrow> Inr (AList.update tx (c + 1) d))"

text \<open>\<^verbatim>\<open>if tx not in d: d[tx] = 0\<close>.\<close>

definition dict_ensure :: "bytes \<Rightarrow> tally \<Rightarrow> tally" where
  "dict_ensure tx d = (if map_of d tx = None then AList.update tx 0 d else d)"

text \<open>
  The loop over \<^verbatim>\<open>bad_txs\<close>. Each iteration subscripts
  \<^verbatim>\<open>self.tx_blacklist[prevote.round]\<close>, which raises when the round has no table. The
  result is what the loop raised, if anything, and the dictionary as the loop left it.
\<close>

fun blacklist_loop ::
  "int \<Rightarrow> bytes list \<Rightarrow> (int \<rightharpoonup> tally) \<Rightarrow> (error + unit) \<times> (int \<rightharpoonup> tally)" where
  "blacklist_loop r [] bl = (Inr (), bl)"
| "blacklist_loop r (tx # txs) bl =
     (case bl r of
        None \<Rightarrow> (Inl KeyError, bl)
      | Some d \<Rightarrow>
          (let d1 = dict_ensure tx d in
           case dict_incr tx d1 of
             Inl e \<Rightarrow> (Inl e, bl(r \<mapsto> d1))
           | Inr d2 \<Rightarrow> blacklist_loop r txs (bl(r \<mapsto> d2))))"

text \<open>
  The loop over \<^verbatim>\<open>good_txs\<close>, with its test \<^verbatim>\<open>txid not in prevote.invalid_txs\<close>
  before the increment.
\<close>

fun whitelist_loop ::
  "int \<Rightarrow> bytes list \<Rightarrow> bytes list \<Rightarrow> (int \<rightharpoonup> tally) \<Rightarrow> (error + unit) \<times> (int \<rightharpoonup> tally)" where
  "whitelist_loop r invalid [] wl = (Inr (), wl)"
| "whitelist_loop r invalid (txid # txs) wl =
     (case wl r of
        None \<Rightarrow> (Inl KeyError, wl)
      | Some d \<Rightarrow>
          (let d1 = dict_ensure txid d in
           if txid \<notin> set invalid then
             (case dict_incr txid d1 of
                Inl e \<Rightarrow> (Inl e, wl(r \<mapsto> d1))
              | Inr d2 \<Rightarrow> whitelist_loop r invalid txs (wl(r \<mapsto> d2)))
           else whitelist_loop r invalid txs (wl(r \<mapsto> d1))))"

text \<open>
  \<^verbatim>\<open>add_prevote\<close>. The result is what the call returned, or the exception it raised, and
  the log as the call left it. The test \<^verbatim>\<open>if block:\<close> holds exactly when a candidate
  was found: a block message has no truth test of its own. The subscripts of
  \<^verbatim>\<open>self.prevotes\<close> come after the round has been given a set, and cannot raise.
\<close>

definition add_prevote ::
  "('tx \<Rightarrow> bytes) \<Rightarrow> prevote_message \<Rightarrow> 'tx message_log \<Rightarrow> (error + bool) \<times> 'tx message_log" where
  "add_prevote txh prevote s =
     (let r = pv_round prevote;
          s1 = (if prevotes s r = None
                then s\<lparr>prevotes := (prevotes s)(r \<mapsto> []),
                       tx_whitelist := (tx_whitelist s)(r \<mapsto> []),
                       tx_blacklist := (tx_blacklist s)(r \<mapsto> [])\<rparr>
                else s);
          vs = get_or_empty (prevotes s1) r;
          vote = Vote (pv_pubkey prevote) (pv_hash prevote)
      in if vote_in vote vs then (Inr False, s1)
         else
           (let block = get_candidate s1 (pv_hash prevote);
                bad_txs = py_set (pv_invalid_txs prevote);
                (r1, bl) = blacklist_loop r bad_txs (tx_blacklist s1);
                s2 = s1\<lparr>tx_blacklist := bl\<rparr>
            in case r1 of
                 Inl e \<Rightarrow> (Inl e, s2)
               | Inr _ \<Rightarrow>
                   (let (r2, wl) =
                          (case block of
                             None \<Rightarrow> (Inr (), tx_whitelist s2)
                           | Some b \<Rightarrow>
                               whitelist_loop r (pv_invalid_txs prevote)
                                 (set_minus (py_set (map txh (body_transactions b))) bad_txs)
                                 (tx_whitelist s2));
                        s3 = s2\<lparr>tx_whitelist := wl\<rparr>
                    in case r2 of
                         Inl e \<Rightarrow> (Inl e, s3)
                       | Inr _ \<Rightarrow>
                           (Inr True,
                            s3\<lparr>prevotes := (prevotes s3)(r \<mapsto> vote_set_add vote vs)\<rparr>))))"

fun add_message ::
  "('tx \<Rightarrow> bytes) \<Rightarrow> 'tx message \<Rightarrow> 'tx message_log \<Rightarrow> (error + bool) \<times> 'tx message_log" where
  "add_message txh (PrecommitMessage m) s = (let (b, s') = add_precommit m s in (Inr b, s'))"
| "add_message txh (PrevoteMessage m) s = add_prevote txh m s"
| "add_message txh (ProposeBlockRequest m) s = (let (b, s') = add_proposal m s in (Inr b, s'))"

subsection \<open>Sequences of calls\<close>

datatype 'tx call =
    Add_message "'tx message"
  | Add_prevote prevote_message
  | Add_precommit precommit_message
  | Add_proposal "'tx propose_block_request"
  | Reset

fun exec :: "('tx \<Rightarrow> bytes) \<Rightarrow> 'tx call \<Rightarrow> 'tx message_log \<Rightarrow> 'tx message_log" where
  "exec txh (Add_message m) s = snd (add_message txh m s)"
| "exec txh (Add_prevote m) s = snd (add_prevote txh m s)"
| "exec txh (Add_precommit m) s = snd (add_precommit m s)"
| "exec txh (Add_proposal m) s = snd (add_proposal m s)"
| "exec txh Reset s = reset s"

text \<open>The log a fresh \<^verbatim>\<open>MessageLog()\<close> is in after a sequence of calls.\<close>

definition run :: "('tx \<Rightarrow> bytes) \<Rightarrow> 'tx call list \<Rightarrow> 'tx message_log" where
  "run txh cs = fold (exec txh) cs init_log"

subsection \<open>Closed forms and invariants\<close>

text \<open>
  The counter of a hash in one table, an absent counter read as 0.
\<close>

definition tally_count :: "tally \<Rightarrow> bytes \<Rightarrow> int" where
  "tally_count d t = (case map_of d t of None \<Rightarrow> 0 | Some c \<Rightarrow> c)"

text \<open>
  What one iteration of a tally loop does to the table of the round: the counter of the
  hash, created at 0 if absent, goes up by one.
\<close>

definition bump :: "bytes \<Rightarrow> tally \<Rightarrow> tally" where
  "bump t d = AList.update t (tally_count d t + 1) d"

text \<open>
  The hashes the whitelist loop of \<^verbatim>\<open>add_prevote\<close> runs over: none without a candidate
  block.
\<close>

definition good_txs :: "('tx \<Rightarrow> bytes) \<Rightarrow> prevote_message \<Rightarrow> 'tx message_log \<Rightarrow> bytes list" where
  "good_txs txh prevote s =
     (case get_candidate s (pv_hash prevote) of
        None \<Rightarrow> []
      | Some b \<Rightarrow> set_minus (py_set (map txh (body_transactions b)))
                    (py_set (pv_invalid_txs prevote)))"

text \<open>
  The log after a prevote has been recorded, in closed form.
\<close>

definition recorded :: "('tx \<Rightarrow> bytes) \<Rightarrow> prevote_message \<Rightarrow> 'tx message_log \<Rightarrow> 'tx message_log" where
  "recorded txh prevote s =
     s\<lparr>prevotes := (prevotes s)(pv_round prevote \<mapsto>
          get_or_empty (prevotes s) (pv_round prevote) @
            [Vote (pv_pubkey prevote) (pv_hash prevote)]),
       tx_whitelist := (tx_whitelist s)(pv_round prevote \<mapsto>
          fold bump (good_txs txh prevote s) (get_or_empty (tx_whitelist s) (pv_round prevote))),
       tx_blacklist := (tx_blacklist s)(pv_round prevote \<mapsto>
          fold bump (py_set (pv_invalid_txs prevote))
            (get_or_empty (tx_blacklist s) (pv_round prevote)))\<rparr>"

text \<open>
  \<^verbatim>\<open>table[r][t]\<close> where both keys are present.
\<close>

definition tally_lookup :: "(int \<rightharpoonup> tally) \<Rightarrow> int \<Rightarrow> bytes \<Rightarrow> int option" where
  "tally_lookup tbl r t = (case tbl r of None \<Rightarrow> None | Some d \<Rightarrow> map_of d t)"

text \<open>
  The same counter with an absent one read as 0.
\<close>

definition tally_value :: "(int \<rightharpoonup> tally) \<Rightarrow> int \<Rightarrow> bytes \<Rightarrow> int" where
  "tally_value tbl r t = (case tally_lookup tbl r t of None \<Rightarrow> 0 | Some c \<Rightarrow> c)"

text \<open>
  The invariants of the logs that sequences of calls produce: the three dictionaries keyed by
  round have the same keys, no public key is held twice in a round, every counter of a round
  lies between 0 and the number of prevotes of the round, and no table holds a key twice.
\<close>

definition rounds_aligned :: "'tx message_log \<Rightarrow> bool" where
  "rounds_aligned s =
     (\<forall>r. (tx_whitelist s r = None) = (prevotes s r = None) \<and>
          (tx_blacklist s r = None) = (prevotes s r = None))"

definition votes_distinct :: "'tx message_log \<Rightarrow> bool" where
  "votes_distinct s =
     (\<forall>r. distinct (map vote_pubkey (get_or_empty (prevotes s) r)) \<and>
          distinct (map commit_pubkey (get_or_empty (precommits s) r)))"

definition tally_bounded :: "(int \<rightharpoonup> tally) \<Rightarrow> (int \<rightharpoonup> vote list) \<Rightarrow> bool" where
  "tally_bounded tbl pvs =
     (\<forall>r t c. tally_lookup tbl r t = Some c \<longrightarrow> 0 \<le> c \<and> c \<le> int (length (get_or_empty pvs r)))"

definition keys_distinct :: "(int \<rightharpoonup> tally) \<Rightarrow> bool" where
  "keys_distinct tbl = (\<forall>r. distinct (map fst (get_or_empty tbl r)))"

definition log_inv :: "'tx message_log \<Rightarrow> bool" where
  "log_inv s =
     (rounds_aligned s \<and> votes_distinct s \<and>
      tally_bounded (tx_whitelist s) (prevotes s) \<and> tally_bounded (tx_blacklist s) (prevotes s) \<and>
      keys_distinct (tx_whitelist s) \<and> keys_distinct (tx_blacklist s))"

subsection \<open>Example values\<close>

text \<open>
  Concrete keys, hashes, messages and a log, on which the properties below are evaluated. A
  transaction is identified with its hash here. The block holds \<open>tx1\<close> twice.
\<close>

definition key_K :: bytes where "key_K = [0x4B]"
definition key_L :: bytes where "key_L = [0x4C]"
definition hash_H1 :: bytes where "hash_H1 = [0xAA]"
definition hash_H2 :: bytes where "hash_H2 = [0xBB]"
definition tx1 :: bytes where "tx1 = [1]"
definition tx2 :: bytes where "tx2 = [2]"
definition tx_bad :: bytes where "tx_bad = [3]"

definition block_H1 :: "bytes block" where
  "block_H1 = \<lparr>header_hash = hash_H1, body_transactions = [tx1, tx1, tx2, tx_bad]\<rparr>"

definition block_H1' :: "bytes block" where
  "block_H1' = \<lparr>header_hash = hash_H1, body_transactions = [tx2]\<rparr>"

definition proposal_H1 :: "bytes propose_block_request" where
  "proposal_H1 = \<lparr>pr_round = 0, pr_block = block_H1\<rparr>"

definition proposal_H1' :: "bytes propose_block_request" where
  "proposal_H1' = \<lparr>pr_round = 1, pr_block = block_H1'\<rparr>"

definition prevote_K_H1 :: prevote_message where
  "prevote_K_H1 = \<lparr>pv_round = 0, pv_pubkey = key_K, pv_hash = Some hash_H1,
     pv_invalid_txs = [tx_bad, tx_bad]\<rparr>"

definition prevote_K_H2 :: prevote_message where
  "prevote_K_H2 = \<lparr>pv_round = 0, pv_pubkey = key_K, pv_hash = Some hash_H2,
     pv_invalid_txs = [tx1]\<rparr>"

definition prevote_L_nil :: prevote_message where
  "prevote_L_nil = \<lparr>pv_round = 0, pv_pubkey = key_L, pv_hash = None,
     pv_invalid_txs = [tx2, tx_bad]\<rparr>"

definition precommit_K_H1 :: precommit_message where
  "precommit_K_H1 = \<lparr>pc_round = 0, pc_pubkey = key_K, pc_hash = Some hash_H1\<rparr>"

definition prevote_L_H1 :: prevote_message where
  "prevote_L_H1 = \<lparr>pv_round = 0, pv_pubkey = key_L, pv_hash = Some hash_H1,
     pv_invalid_txs = [tx2]\<rparr>"

definition calls_1 :: "bytes call list" where
  "calls_1 = [Add_proposal proposal_H1, Add_prevote prevote_K_H1]"

definition log_1 :: "bytes message_log" where
  "log_1 = run (\<lambda>tx. tx) calls_1"

section \<open>Properties\<close>

lemma vote_in_iff: "vote_in v vs \<longleftrightarrow> vote_pubkey v \<in> vote_pubkey ` set vs"
  by (auto simp: vote_in_def vote_eq_def list_ex_iff)

lemma commit_in_iff: "commit_in c cs \<longleftrightarrow> commit_pubkey c \<in> commit_pubkey ` set cs"
  by (auto simp: commit_in_def commit_eq_def list_ex_iff)

lemma dict_incr_ensure: "dict_incr t (dict_ensure t d) = Inr (bump t d)"
  by (cases "map_of d t")
     (simp_all add: dict_incr_def dict_ensure_def bump_def tally_count_def update_conv')

lemma map_of_bump: "map_of (bump t d) = (map_of d)(t \<mapsto> tally_count d t + 1)"
  by (simp add: bump_def update_conv')

lemma blacklist_loop_open:
  "bl r = Some d \<Longrightarrow> blacklist_loop r txs bl = (Inr (), bl(r \<mapsto> fold bump txs d))"
proof (induction txs arbitrary: bl d)
  case Nil
  then show ?case by (simp add: fun_upd_idem)
next
  case (Cons t txs)
  have step: "blacklist_loop r (t # txs) bl = blacklist_loop r txs (bl(r \<mapsto> bump t d))"
    using Cons.prems by (simp add: dict_incr_ensure)
  have rest: "blacklist_loop r txs (bl(r \<mapsto> bump t d)) =
      (Inr (), (bl(r \<mapsto> bump t d))(r \<mapsto> fold bump txs (bump t d)))"
    by (rule Cons.IH) simp
  show ?case unfolding step rest by (auto simp: fun_upd_def)
qed

lemma blacklist_loop_closed:
  "bl r = None \<Longrightarrow> blacklist_loop r txs bl = ((if txs = [] then Inr () else Inl KeyError), bl)"
  by (cases txs) simp_all

lemma whitelist_loop_open:
  "wl r = Some d \<Longrightarrow> set txs \<inter> set invalid = {} \<Longrightarrow>
   whitelist_loop r invalid txs wl = (Inr (), wl(r \<mapsto> fold bump txs d))"
proof (induction txs arbitrary: wl d)
  case Nil
  then show ?case by (simp add: fun_upd_idem)
next
  case (Cons t txs)
  from Cons.prems have t: "t \<notin> set invalid" and rest: "set txs \<inter> set invalid = {}" by auto
  have step: "whitelist_loop r invalid (t # txs) wl =
      whitelist_loop r invalid txs (wl(r \<mapsto> bump t d))"
    using Cons.prems(1) t by (simp add: dict_incr_ensure)
  have ih: "whitelist_loop r invalid txs (wl(r \<mapsto> bump t d)) =
      (Inr (), (wl(r \<mapsto> bump t d))(r \<mapsto> fold bump txs (bump t d)))"
    using rest by (intro Cons.IH) simp_all
  show ?case unfolding step ih by (auto simp: fun_upd_def)
qed

lemma map_of_fold_bump:
  "distinct txs \<Longrightarrow>
   map_of (fold bump txs d) t = (if t \<in> set txs then Some (tally_count d t + 1) else map_of d t)"
proof (induction txs arbitrary: d)
  case Nil
  then show ?case by simp
next
  case (Cons a txs)
  then have a: "a \<notin> set txs" and dis: "distinct txs" by simp_all
  have cnt: "tally_count (bump a d) t = (if t = a then tally_count d a + 1 else tally_count d t)"
    by (simp add: tally_count_def map_of_bump)
  show ?case
    using a by (simp add: Cons.IH [OF dis] cnt map_of_bump)
qed

lemma good_txs_disjoint: "set (good_txs txh pv s) \<inter> set (pv_invalid_txs pv) = {}"
  by (auto simp: good_txs_def set_minus_def py_set_def split: option.splits)

lemma add_prevote_open_round:
  assumes "prevotes s (pv_round pv) = Some vs"
    and "tx_blacklist s (pv_round pv) = Some db"
    and "tx_whitelist s (pv_round pv) = Some dw"
    and "pv_pubkey pv \<notin> vote_pubkey ` set vs"
  shows "add_prevote txh pv s =
     (Inr True,
      s\<lparr>prevotes := (prevotes s)(pv_round pv \<mapsto> vs @ [Vote (pv_pubkey pv) (pv_hash pv)]),
        tx_whitelist := (tx_whitelist s)(pv_round pv \<mapsto> fold bump (good_txs txh pv s) dw),
        tx_blacklist := (tx_blacklist s)(pv_round pv \<mapsto>
                          fold bump (py_set (pv_invalid_txs pv)) db)\<rparr>)"
proof -
  let ?r = "pv_round pv"
  have fresh: "\<not> vote_in (Vote (pv_pubkey pv) (pv_hash pv)) vs"
    using assms(4) by (simp add: vote_in_iff)
  have bl: "blacklist_loop ?r txs (tx_blacklist s) =
      (Inr (), (tx_blacklist s)(?r \<mapsto> fold bump txs db))" for txs
    using assms(2) by (rule blacklist_loop_open)
  have wl: "whitelist_loop ?r (pv_invalid_txs pv) (good_txs txh pv s) (tx_whitelist s) =
      (Inr (), (tx_whitelist s)(?r \<mapsto> fold bump (good_txs txh pv s) dw))"
    using assms(3) good_txs_disjoint by (rule whitelist_loop_open)
  show ?thesis
  proof (cases "get_candidate s (pv_hash pv)")
    case None
    then have "good_txs txh pv s = []" by (simp add: good_txs_def)
    with None assms(1,3) fresh show ?thesis
      by (simp add: add_prevote_def Let_def bl get_or_empty_def get_candidate_def
          vote_set_add_def fun_upd_idem)
  next
    case (Some b)
    then have g: "set_minus (py_set (map txh (body_transactions b))) (py_set (pv_invalid_txs pv))
        = good_txs txh pv s"
      by (simp add: good_txs_def)
    from Some assms(1,3) fresh show ?thesis
      using wl
      by (simp add: add_prevote_def Let_def bl get_or_empty_def get_candidate_def
          vote_set_add_def g)
  qed
qed

lemma add_prevote_opens:
  assumes "prevotes s (pv_round pv) = None"
  shows "add_prevote txh pv s =
     add_prevote txh pv
       (s\<lparr>prevotes := (prevotes s)(pv_round pv \<mapsto> []),
          tx_whitelist := (tx_whitelist s)(pv_round pv \<mapsto> []),
          tx_blacklist := (tx_blacklist s)(pv_round pv \<mapsto> [])\<rparr>)"
  using assms by (simp add: add_prevote_def)

lemma add_prevote_duplicate:
  assumes "pv_pubkey pv \<in> vote_pubkey ` set (get_or_empty (prevotes s) (pv_round pv))"
  shows "add_prevote txh pv s = (Inr False, s)"
proof -
  from assms obtain vs where vs: "prevotes s (pv_round pv) = Some vs"
    by (cases "prevotes s (pv_round pv)") (auto simp: get_or_empty_def)
  with assms have "vote_in (Vote (pv_pubkey pv) (pv_hash pv)) vs"
    by (simp add: vote_in_iff get_or_empty_def)
  with vs show ?thesis
    by (simp add: add_prevote_def get_or_empty_def)
qed

lemma add_prevote_recorded:
  assumes al: "rounds_aligned s"
    and new: "pv_pubkey pv \<notin> vote_pubkey ` set (get_or_empty (prevotes s) (pv_round pv))"
  shows "add_prevote txh pv s = (Inr True, recorded txh pv s)"
proof (cases "prevotes s (pv_round pv)")
  case None
  let ?r = "pv_round pv"
  let ?s1 = "s\<lparr>prevotes := (prevotes s)(?r \<mapsto> []),
          tx_whitelist := (tx_whitelist s)(?r \<mapsto> []),
          tx_blacklist := (tx_blacklist s)(?r \<mapsto> [])\<rparr>"
  from al None have w: "tx_whitelist s ?r = None" and b: "tx_blacklist s ?r = None"
    by (auto simp: rounds_aligned_def)
  have g: "good_txs txh pv ?s1 = good_txs txh pv s"
    by (simp add: good_txs_def get_candidate_def split: option.splits)
  have "add_prevote txh pv s = add_prevote txh pv ?s1"
    using None by (rule add_prevote_opens)
  also have "\<dots> = (Inr True, recorded txh pv s)"
    using None w b
    by (subst add_prevote_open_round [where vs = "[]" and db = "[]" and dw = "[]"])
       (simp_all add: recorded_def g get_or_empty_def)
  finally show ?thesis .
next
  case (Some vs)
  from al Some obtain dw db where w: "tx_whitelist s (pv_round pv) = Some dw"
    and b: "tx_blacklist s (pv_round pv) = Some db"
    by (fastforce simp: rounds_aligned_def)
  from new Some have "pv_pubkey pv \<notin> vote_pubkey ` set vs"
    by (simp add: get_or_empty_def)
  from add_prevote_open_round [OF Some b w this] Some w b show ?thesis
    by (simp add: recorded_def get_or_empty_def)
qed

lemma tally_count_get: "tally_count (get_or_empty tbl r) t = tally_value tbl r t"
  by (simp add: tally_count_def tally_value_def tally_lookup_def get_or_empty_def
      split: option.splits)

lemma tally_lookup_bumped:
  assumes "distinct txs"
  shows "tally_lookup (tbl(r \<mapsto> fold bump txs (get_or_empty tbl r))) r' t =
     (if r' = r \<and> t \<in> set txs then Some (tally_value tbl r t + 1) else tally_lookup tbl r' t)"
proof (cases "r' = r")
  case True
  have "map_of (get_or_empty tbl r) t = tally_lookup tbl r t"
    by (simp add: get_or_empty_def tally_lookup_def split: option.splits)
  with True show ?thesis
    by (simp add: tally_lookup_def map_of_fold_bump [OF assms] tally_count_get)
next
  case False
  then show ?thesis by (simp add: tally_lookup_def)
qed

lemma distinct_keys_fold_bump: "distinct (map fst d) \<Longrightarrow> distinct (map fst (fold bump txs d))"
  by (induction txs arbitrary: d) (simp_all add: bump_def distinct_update)

lemma distinct_py_set: "distinct (py_set xs)"
  by (simp add: py_set_def)

lemma distinct_good_txs: "distinct (good_txs txh pv s)"
  by (simp add: good_txs_def set_minus_def py_set_def split: option.splits)

lemma set_good_txs:
  "set (good_txs txh pv s) =
     (case get_candidate s (pv_hash pv) of None \<Rightarrow> {}
      | Some b \<Rightarrow> txh ` set (body_transactions b) - set (pv_invalid_txs pv))"
  by (auto simp: good_txs_def set_minus_def py_set_def split: option.splits)

lemma add_precommit_eq:
  "add_precommit pc s =
     (if pc_pubkey pc \<in> commit_pubkey ` set (get_or_empty (precommits s) (pc_round pc))
      then (False, s)
      else (True, s\<lparr>precommits := (precommits s)(pc_round pc \<mapsto>
              get_or_empty (precommits s) (pc_round pc) @ [Commit (pc_pubkey pc) (pc_hash pc)])\<rparr>))"
  by (cases "precommits s (pc_round pc)")
     (simp_all add: add_precommit_def open_round_def get_or_empty_def commit_in_iff
       commit_set_add_def fun_upd_idem)

lemma add_prevote_cases:
  assumes "rounds_aligned s"
  shows "add_prevote txh pv s =
     (if pv_pubkey pv \<in> vote_pubkey ` set (get_or_empty (prevotes s) (pv_round pv))
      then (Inr False, s) else (Inr True, recorded txh pv s))"
  using assms by (simp add: add_prevote_duplicate add_prevote_recorded)

lemma log_inv_init: "log_inv init_log"
  by (simp add: log_inv_def init_log_def rounds_aligned_def votes_distinct_def
      tally_bounded_def keys_distinct_def tally_lookup_def get_or_empty_def)

lemma log_inv_reset: "log_inv (reset s)"
  by (simp add: log_inv_def reset_def rounds_aligned_def votes_distinct_def
      tally_bounded_def keys_distinct_def tally_lookup_def get_or_empty_def)

lemma log_inv_add_proposal: "log_inv s \<Longrightarrow> log_inv (snd (add_proposal p s))"
  by (simp add: add_proposal_def Let_def log_inv_def rounds_aligned_def votes_distinct_def)

lemma log_inv_add_precommit:
  assumes "log_inv s"
  shows "log_inv (snd (add_precommit pc s))"
proof -
  have "votes_distinct (snd (add_precommit pc s))"
    using assms unfolding log_inv_def votes_distinct_def add_precommit_eq
    by (auto simp: get_or_empty_def)
  with assms show ?thesis
    unfolding log_inv_def add_precommit_eq by (simp add: rounds_aligned_def)
qed

lemma tally_bounded_recorded:
  assumes b: "tally_bounded tbl pvs" and d: "distinct txs"
  shows "tally_bounded (tbl(r \<mapsto> fold bump txs (get_or_empty tbl r)))
           (pvs(r \<mapsto> get_or_empty pvs r @ [v]))"
  unfolding tally_bounded_def
proof (intro allI impI)
  fix r' t c
  assume c: "tally_lookup (tbl(r \<mapsto> fold bump txs (get_or_empty tbl r))) r' t = Some c"
  have old: "0 \<le> tally_value tbl r t \<and> tally_value tbl r t \<le> int (length (get_or_empty pvs r))"
    using b by (auto simp: tally_bounded_def tally_value_def split: option.splits)
  show "0 \<le> c \<and> c \<le> int (length (get_or_empty (pvs(r \<mapsto> get_or_empty pvs r @ [v])) r'))"
  proof (cases "r' = r \<and> t \<in> set txs")
    case True
    with c have "c = tally_value tbl r t + 1"
      by (simp add: tally_lookup_bumped [OF d])
    with True old show ?thesis by (simp add: get_or_empty_def)
  next
    case False
    with c have "tally_lookup tbl r' t = Some c"
      by (simp add: tally_lookup_bumped [OF d])
    with b have "0 \<le> c \<and> c \<le> int (length (get_or_empty pvs r'))"
      by (simp add: tally_bounded_def)
    then show ?thesis by (auto simp: get_or_empty_def)
  qed
qed

lemma keys_distinct_recorded:
  "keys_distinct tbl \<Longrightarrow> keys_distinct (tbl(r \<mapsto> fold bump txs (get_or_empty tbl r)))"
  unfolding keys_distinct_def
  by (auto simp: get_or_empty_def intro!: distinct_keys_fold_bump split: option.splits)

lemma log_inv_recorded:
  assumes inv: "log_inv s"
    and new: "pv_pubkey pv \<notin> vote_pubkey ` set (get_or_empty (prevotes s) (pv_round pv))"
  shows "log_inv (recorded txh pv s)"
proof -
  have "rounds_aligned (recorded txh pv s)"
    using inv by (simp add: log_inv_def rounds_aligned_def recorded_def)
  moreover have "votes_distinct (recorded txh pv s)"
    using inv new by (auto simp: log_inv_def votes_distinct_def recorded_def get_or_empty_def)
  moreover have "tally_bounded (tx_whitelist (recorded txh pv s)) (prevotes (recorded txh pv s))"
    using inv by (simp add: log_inv_def recorded_def tally_bounded_recorded distinct_good_txs)
  moreover have "tally_bounded (tx_blacklist (recorded txh pv s)) (prevotes (recorded txh pv s))"
    using inv by (simp add: log_inv_def recorded_def tally_bounded_recorded distinct_py_set)
  moreover have "keys_distinct (tx_whitelist (recorded txh pv s))"
    using inv by (simp add: log_inv_def recorded_def keys_distinct_recorded)
  moreover have "keys_distinct (tx_blacklist (recorded txh pv s))"
    using inv by (simp add: log_inv_def recorded_def keys_distinct_recorded)
  ultimately show ?thesis by (simp add: log_inv_def)
qed

lemma log_inv_add_prevote:
  assumes "log_inv s"
  shows "log_inv (snd (add_prevote txh pv s))"
proof -
  from assms have "rounds_aligned s" by (simp add: log_inv_def)
  then show ?thesis
    using assms by (simp add: add_prevote_cases log_inv_recorded)
qed

lemma log_inv_exec: "log_inv s \<Longrightarrow> log_inv (exec txh c s)"
proof (cases c)
  case (Add_message m)
  assume "log_inv s"
  then show ?thesis
    unfolding Add_message
    by (cases m)
       (simp_all add: log_inv_add_prevote log_inv_add_precommit log_inv_add_proposal
         split: prod.splits,
        (metis log_inv_add_precommit log_inv_add_proposal snd_conv)+)
qed (simp_all add: log_inv_add_prevote log_inv_add_precommit log_inv_add_proposal log_inv_reset)

lemma log_inv_fold: "log_inv s \<Longrightarrow> log_inv (fold (exec txh) cs s)"
  by (induction cs arbitrary: s) (simp_all add: log_inv_exec)

lemma log_inv_run: "log_inv (run txh cs)"
  by (simp add: run_def log_inv_fold log_inv_init)

lemma filter_key_le_1: "distinct (map f xs) \<Longrightarrow> length (filter (\<lambda>x. f x = k) xs) \<le> 1"
proof (induction xs)
  case Nil
  then show ?case by simp
next
  case (Cons x xs)
  show ?case
  proof (cases "f x = k")
    case True
    with Cons.prems have "k \<notin> f ` set xs" by auto
    then have "filter (\<lambda>x. f x = k) xs = []" by (auto simp: filter_empty_conv)
    with True show ?thesis by simp
  next
    case False
    with Cons show ?thesis by simp
  qed
qed

text \<open>
  Claim C1 (vote uniqueness). In the log reached by any sequence of \<^verbatim>\<open>add_message\<close>,
  \<^verbatim>\<open>add_prevote\<close>, \<^verbatim>\<open>add_precommit\<close>, \<^verbatim>\<open>add_proposal\<close> and \<^verbatim>\<open>reset\<close> calls,
  for every round \<open>R\<close> and public key \<open>K\<close> at most one entry of \<^verbatim>\<open>prevotes[R]\<close> and at
  most one entry of \<^verbatim>\<open>precommits[R]\<close> has the public key \<open>K\<close>, whatever the targets.
\<close>

theorem vote_uniqueness:
  "length (filter (\<lambda>v. vote_pubkey v = K) (get_or_empty (prevotes (run txh cs)) R)) \<le> 1 \<and>
   length (filter (\<lambda>c. commit_pubkey c = K) (get_or_empty (precommits (run txh cs)) R)) \<le> 1"
proof -
  have "votes_distinct (run txh cs)"
    using log_inv_run [of txh cs] by (simp add: log_inv_def)
  then have "distinct (map vote_pubkey (get_or_empty (prevotes (run txh cs)) R))"
    and "distinct (map commit_pubkey (get_or_empty (precommits (run txh cs)) R))"
    by (simp_all add: votes_distinct_def)
  then show ?thesis
    by (intro conjI filter_key_le_1)
qed

lemma add_prevote_returns_recorded:
  assumes "add_prevote txh v s = (Inr b, s1)"
  shows "pv_pubkey v \<in> vote_pubkey ` set (get_or_empty (prevotes s1) (pv_round v))"
  using assms
  by (auto simp: add_prevote_def Let_def get_or_empty_def vote_in_iff vote_set_add_def
      split: if_splits prod.splits sum.splits option.splits
      intro!: image_eqI [where x = "Vote (pv_pubkey v) (pv_hash v)"])

lemma add_prevote_returns_in_run: "\<exists>b. fst (add_prevote txh v (run txh cs)) = Inr b"
  using log_inv_run [of txh cs] by (auto simp: log_inv_def add_prevote_cases)

text \<open>
  Claim C2 (a duplicate prevote is a no-op). In every log, a prevote whose public key already
  has a vote at its round makes \<^verbatim>\<open>add_prevote\<close> return \<^verbatim>\<open>False\<close> and leave the whole log
  as it was. Hence, whenever \<^verbatim>\<open>add_prevote(v)\<close> returns, a second \<^verbatim>\<open>add_prevote(v)\<close>
  returns \<^verbatim>\<open>False\<close> and leaves the log of the first call. In a log reached by a sequence of
  calls \<^verbatim>\<open>add_prevote\<close> does return.
\<close>

theorem duplicate_prevote_is_noop:
  "(pv_pubkey v \<in> vote_pubkey ` set (get_or_empty (prevotes s) (pv_round v)) \<longrightarrow>
      add_prevote txh v s = (Inr False, s)) \<and>
   (\<forall>b s1. add_prevote txh v s = (Inr b, s1) \<longrightarrow> add_prevote txh v s1 = (Inr False, s1)) \<and>
   (\<exists>b. fst (add_prevote txh v (run txh cs)) = Inr b)"
  by (simp add: add_prevote_duplicate add_prevote_returns_recorded add_prevote_returns_in_run)

text \<open>
  Claim C5 (\<^verbatim>\<open>add_proposal\<close> is first-writer-wins and touches only \<^verbatim>\<open>proposals\<close>). In every
  log, a proposal whose block hash is already a key returns \<^verbatim>\<open>False\<close> and leaves the log
  unchanged; otherwise it returns \<^verbatim>\<open>True\<close> and the only change is the new entry. Every
  block stored before is still stored, and the prevotes, precommits and both tally tables
  are never modified.
\<close>

theorem add_proposal_first_writer_wins:
  "add_proposal p s =
     (if proposals s (header_hash (pr_block p)) \<noteq> None then (False, s)
      else (True, s\<lparr>proposals := (proposals s)(header_hash (pr_block p) \<mapsto> pr_block p)\<rparr>)) \<and>
   (\<forall>k b. proposals s k = Some b \<longrightarrow> proposals (snd (add_proposal p s)) k = Some b) \<and>
   prevotes (snd (add_proposal p s)) = prevotes s \<and>
   precommits (snd (add_proposal p s)) = precommits s \<and>
   tx_whitelist (snd (add_proposal p s)) = tx_whitelist s \<and>
   tx_blacklist (snd (add_proposal p s)) = tx_blacklist s"
  by (auto simp: add_proposal_def Let_def)

text \<open>
  Claim C7 (reset completeness). After \<^verbatim>\<open>reset()\<close> on any log every count is 0 for every
  round and target (nil included), no candidate is found for any hash, and
  \<^verbatim>\<open>get_invalid_txs\<close> and \<^verbatim>\<open>get_valid_txs\<close> are empty for every round and threshold.
\<close>

theorem reset_completeness:
  "count_prevotes_for (reset s) R h = 0 \<and> count_precommits_for (reset s) R h = 0 \<and>
   count_prevotes (reset s) R = 0 \<and> count_precommits (reset s) R = 0 \<and>
   get_candidate (reset s) h = None \<and>
   get_invalid_txs (reset s) R th = [] \<and> get_valid_txs (reset s) R th = []"
  by (simp add: reset_def count_prevotes_for_def count_precommits_for_def count_prevotes_def
      count_precommits_def get_candidate_def get_invalid_txs_def get_valid_txs_def
      get_or_empty_def split: option.splits)

lemma add_prevote_prevotes:
  "get_or_empty (prevotes (snd (add_prevote txh pv s))) R = get_or_empty (prevotes s) R \<or>
   get_or_empty (prevotes (snd (add_prevote txh pv s))) R =
     get_or_empty (prevotes s) R @ [Vote (pv_pubkey pv) (pv_hash pv)]"
  by (auto simp: add_prevote_def Let_def get_or_empty_def vote_set_add_def
      split: if_splits prod.splits sum.splits option.splits)

lemma add_prevote_precommits: "precommits (snd (add_prevote txh pv s)) = precommits s"
  by (auto simp: add_prevote_def Let_def split: if_splits prod.splits sum.splits option.splits)

lemma add_precommit_precommits:
  "get_or_empty (precommits (snd (add_precommit pc s))) R = get_or_empty (precommits s) R \<or>
   get_or_empty (precommits (snd (add_precommit pc s))) R =
     get_or_empty (precommits s) R @ [Commit (pc_pubkey pc) (pc_hash pc)]"
  by (auto simp: add_precommit_eq get_or_empty_def)

lemma add_precommit_prevotes: "prevotes (snd (add_precommit pc s)) = prevotes s"
  by (simp add: add_precommit_eq)

lemma snd_add_message:
  "snd (add_message txh m s) =
     (case m of
        ProposeBlockRequest p \<Rightarrow> snd (add_proposal p s)
      | PrevoteMessage pv \<Rightarrow> snd (add_prevote txh pv s)
      | PrecommitMessage pc \<Rightarrow> snd (add_precommit pc s))"
  by (cases m) (simp_all split: prod.splits)

lemma count_prevotes_for_mono:
  "count_prevotes_for s R h \<le> count_prevotes_for (snd (add_message txh m s)) R h"
proof (cases m)
  case (ProposeBlockRequest p)
  then show ?thesis
    by (simp del: add_message.simps add: snd_add_message count_prevotes_for_def add_proposal_def Let_def)
next
  case (PrevoteMessage pv)
  then show ?thesis
    using add_prevote_prevotes [of txh pv s R]
    by (auto simp del: add_message.simps simp: snd_add_message count_prevotes_for_def)
next
  case (PrecommitMessage pc)
  then show ?thesis
    using add_precommit_prevotes [of pc s]
    by (simp del: add_message.simps add: snd_add_message count_prevotes_for_def)
qed

lemma count_precommits_for_mono:
  "count_precommits_for s R h \<le> count_precommits_for (snd (add_message txh m s)) R h"
proof (cases m)
  case (ProposeBlockRequest p)
  then show ?thesis
    by (simp del: add_message.simps add: snd_add_message count_precommits_for_def add_proposal_def Let_def)
next
  case (PrevoteMessage pv)
  then show ?thesis
    by (simp del: add_message.simps add: snd_add_message count_precommits_for_def add_prevote_precommits)
next
  case (PrecommitMessage pc)
  then show ?thesis
    using add_precommit_precommits [of pc s R]
    by (auto simp del: add_message.simps simp: snd_add_message count_precommits_for_def)
qed

text \<open>
  Claim C8 (quorum monotonicity). In every log and for every message, round and target (nil
  included), \<^verbatim>\<open>count_prevotes_for\<close> and \<^verbatim>\<open>count_precommits_for\<close> after
  \<^verbatim>\<open>add_message\<close> are at least what they were before, so a quorum that held still holds.
\<close>

theorem quorum_monotonicity:
  "count_prevotes_for s R h \<le> count_prevotes_for (snd (add_message txh m s)) R h \<and>
   count_precommits_for s R h \<le> count_precommits_for (snd (add_message txh m s)) R h \<and>
   (has_prevote_quorum s R h th \<longrightarrow> has_prevote_quorum (snd (add_message txh m s)) R h th) \<and>
   (has_precommit_quorum s R h th \<longrightarrow> has_precommit_quorum (snd (add_message txh m s)) R h th)"
  using count_prevotes_for_mono [of s R h txh m] count_precommits_for_mono [of s R h txh m]
  by (simp add: has_prevote_quorum_def has_precommit_quorum_def)

subsection \<open>Evaluation of the examples\<close>

lemmas examples = key_K_def key_L_def hash_H1_def hash_H2_def tx1_def tx2_def tx_bad_def
  block_H1_def block_H1'_def proposal_H1_def proposal_H1'_def prevote_K_H1_def prevote_K_H2_def
  prevote_L_nil_def prevote_L_H1_def precommit_K_H1_def calls_1_def log_1_def

lemmas evals = run_def init_log_def add_prevote_def add_precommit_def add_proposal_def
  reset_def Let_def get_or_empty_def open_round_def vote_in_def vote_eq_def vote_set_add_def
  commit_in_def commit_eq_def commit_set_add_def py_set_def set_minus_def dict_incr_def
  dict_ensure_def get_candidate_def

lemma log_1_prevotes: "prevotes log_1 = [0 \<mapsto> [Vote key_K (Some hash_H1)]]"
  by (simp add: examples evals)

lemma log_1_precommits: "precommits log_1 = Map.empty"
  by (simp add: examples evals)

lemma log_1_proposals: "proposals log_1 = [hash_H1 \<mapsto> block_H1]"
  by (simp add: examples evals)

lemma log_1_whitelist: "tx_whitelist log_1 = [0 \<mapsto> [(tx1, 1), (tx2, 1)]]"
  by (simp add: examples evals)

lemma log_1_blacklist: "tx_blacklist log_1 = [0 \<mapsto> [(tx_bad, 1)]]"
  by (simp add: examples evals)

lemmas log_1_fields = log_1_prevotes log_1_precommits log_1_proposals log_1_whitelist
  log_1_blacklist

lemma distinct_examples:
  "tx1 \<noteq> tx2" "tx1 \<noteq> tx_bad" "tx2 \<noteq> tx_bad" "tx2 \<noteq> tx1" "tx_bad \<noteq> tx1" "tx_bad \<noteq> tx2"
  "key_K \<noteq> key_L" "key_L \<noteq> key_K" "hash_H1 \<noteq> hash_H2" "hash_H2 \<noteq> hash_H1"
  by (simp_all add: examples)

text \<open>
  In \<open>log_1\<close> the key \<open>key_K\<close> has prevoted for \<open>hash_H1\<close>; its prevote for \<open>hash_H2\<close> is refused.
\<close>

theorem duplicate_prevote_is_noop_witness:
  "add_prevote (\<lambda>tx. tx) prevote_K_H2 log_1 = (Inr False, log_1)"
proof -
  have "pv_pubkey prevote_K_H2 \<in>
      vote_pubkey ` set (get_or_empty (prevotes log_1) (pv_round prevote_K_H2))"
    by (simp add: log_1_fields get_or_empty_def prevote_K_H2_def)
  then show ?thesis
    using duplicate_prevote_is_noop [of prevote_K_H2 log_1 "\<lambda>tx. tx" "[]"] by simp
qed

text \<open>
  A second proposal with the hash of the stored block is refused, and the stored block stays.
\<close>

theorem add_proposal_first_writer_wins_witness:
  "add_proposal proposal_H1' log_1 = (False, log_1) \<and>
   proposals (snd (add_proposal proposal_H1' log_1)) hash_H1 = Some block_H1"
proof -
  have "proposals log_1 (header_hash (pr_block proposal_H1')) \<noteq> None"
    and "proposals log_1 hash_H1 = Some block_H1"
    by (simp_all add: log_1_fields proposal_H1'_def block_H1'_def)
  then show ?thesis
    using add_proposal_first_writer_wins [of proposal_H1' log_1] by simp
qed

text \<open>
  A quorum of one prevote for \<open>hash_H1\<close> survives a nil prevote of another key.
\<close>

theorem quorum_monotonicity_witness:
  "has_prevote_quorum log_1 0 (Some hash_H1) 1 \<and>
   has_prevote_quorum (snd (add_message (\<lambda>tx. tx) (PrevoteMessage prevote_L_nil) log_1))
     0 (Some hash_H1) 1"
proof -
  have "has_prevote_quorum log_1 0 (Some hash_H1) 1"
    by (simp add: has_prevote_quorum_def count_prevotes_for_def get_or_empty_def log_1_fields)
  then show ?thesis
    using quorum_monotonicity [of log_1 0 "Some hash_H1" "\<lambda>tx. tx" "PrevoteMessage prevote_L_nil" 1]
    by simp
qed

lemma set_py_set: "set (py_set xs) = set xs"
  by (simp add: py_set_def)

lemma tally_value_bumped:
  assumes "distinct txs"
  shows "tally_value (tbl(r \<mapsto> fold bump txs (get_or_empty tbl r))) r' t =
     (if r' = r \<and> t \<in> set txs then tally_value tbl r t + 1 else tally_value tbl r' t)"
  by (simp add: tally_value_def [of "tbl(r \<mapsto> fold bump txs (get_or_empty tbl r))"]
      tally_lookup_bumped [OF assms])
     (simp add: tally_value_def)

lemma rounds_aligned_run: "rounds_aligned (run txh cs)"
  using log_inv_run [of txh cs] by (simp add: log_inv_def)

text \<open>
  Claim C3 (whitelist tally). In a log reached by a sequence of calls, let a prevote come from
  a public key not yet recorded at its round, and let \<^verbatim>\<open>get_candidate\<close> find the block
  \<open>B\<close> for its hash. Then \<^verbatim>\<open>add_prevote\<close> returns \<^verbatim>\<open>True\<close>, and the whitelist counter of the
  round goes up by one, from 0 if it was absent, for every hash of a transaction of \<open>B\<close> that
  is not in \<^verbatim>\<open>invalid_txs\<close>. Every other whitelist counter, those of the hashes in
  \<^verbatim>\<open>invalid_txs\<close> included, is what it was: absent if it was absent.
\<close>

theorem whitelist_tally_on_prevote:
  assumes new: "pv_pubkey pv \<notin>
      vote_pubkey ` set (get_or_empty (prevotes (run txh cs)) (pv_round pv))"
    and cand: "get_candidate (run txh cs) (pv_hash pv) = Some B"
  shows "fst (add_prevote txh pv (run txh cs)) = Inr True \<and>
     tally_lookup (tx_whitelist (snd (add_prevote txh pv (run txh cs)))) r t =
       (if r = pv_round pv \<and> t \<in> txh ` set (body_transactions B) \<and>
           t \<notin> set (pv_invalid_txs pv)
        then Some (tally_value (tx_whitelist (run txh cs)) r t + 1)
        else tally_lookup (tx_whitelist (run txh cs)) r t)"
proof -
  have eq: "add_prevote txh pv (run txh cs) = (Inr True, recorded txh pv (run txh cs))"
    using rounds_aligned_run new by (rule add_prevote_recorded)
  have good: "set (good_txs txh pv (run txh cs)) =
      txh ` set (body_transactions B) - set (pv_invalid_txs pv)"
    by (simp add: set_good_txs cand)
  show ?thesis
    unfolding eq
    by (auto simp: recorded_def tally_lookup_bumped [OF distinct_good_txs] good)
qed

text \<open>
  The second prevote for \<open>hash_H1\<close> flags \<open>tx2\<close>: the counter of \<open>tx1\<close> goes from 1 to 2,
  that of \<open>tx2\<close> stays 1, and \<open>tx_bad\<close>, flagged by the first prevote only, gets its first count.
\<close>

theorem whitelist_tally_on_prevote_witness:
  "fst (add_prevote (\<lambda>tx. tx) prevote_L_H1 (run (\<lambda>tx. tx) calls_1)) = Inr True \<and>
   tally_lookup (tx_whitelist (snd (add_prevote (\<lambda>tx. tx) prevote_L_H1 (run (\<lambda>tx. tx) calls_1))))
     0 tx1 = Some 2 \<and>
   tally_lookup (tx_whitelist (snd (add_prevote (\<lambda>tx. tx) prevote_L_H1 (run (\<lambda>tx. tx) calls_1))))
     0 tx2 = Some 1 \<and>
   tally_lookup (tx_whitelist (snd (add_prevote (\<lambda>tx. tx) prevote_L_H1 (run (\<lambda>tx. tx) calls_1))))
     0 tx_bad = Some 1"
proof -
  have new: "pv_pubkey prevote_L_H1 \<notin> vote_pubkey `
      set (get_or_empty (prevotes (run (\<lambda>tx. tx) calls_1)) (pv_round prevote_L_H1))"
    by (simp add: log_1_fields [unfolded log_1_def] get_or_empty_def prevote_L_H1_def
        distinct_examples)
  have cand: "get_candidate (run (\<lambda>tx. tx) calls_1) (pv_hash prevote_L_H1) = Some block_H1"
    by (simp add: get_candidate_def log_1_fields [unfolded log_1_def] prevote_L_H1_def)
  have old: "tally_value (tx_whitelist (run (\<lambda>tx. tx) calls_1)) 0 tx1 = 1"
    "tally_lookup (tx_whitelist (run (\<lambda>tx. tx) calls_1)) 0 tx2 = Some 1"
    "tally_value (tx_whitelist (run (\<lambda>tx. tx) calls_1)) 0 tx_bad = 0"
    by (simp_all add: tally_value_def tally_lookup_def log_1_fields [unfolded log_1_def]
        distinct_examples)
  show ?thesis
    using whitelist_tally_on_prevote [OF new cand, of 0 tx1]
      whitelist_tally_on_prevote [OF new cand, of 0 tx2]
      whitelist_tally_on_prevote [OF new cand, of 0 tx_bad] old
    by (simp add: prevote_L_H1_def block_H1_def distinct_examples)
qed

text \<open>
  Claim C4 (blacklist tally). In a log reached by a sequence of calls, a prevote from a public
  key not yet recorded at its round makes \<^verbatim>\<open>add_prevote\<close> return \<^verbatim>\<open>True\<close> and raises the
  blacklist counter of the round by one, from 0 if it was absent, for every hash in
  \<^verbatim>\<open>invalid_txs\<close>; every other blacklist counter is what it was. The nil hash has no
  candidate. When the hash of the prevote has no candidate, every whitelist counter and
  every answer of \<^verbatim>\<open>get_valid_txs\<close> is what it was: the whitelist dictionary is the same
  where the round was open, and has gained an empty table for the round where this prevote
  opens it.
\<close>

theorem blacklist_tally_on_prevote:
  assumes new: "pv_pubkey pv \<notin>
      vote_pubkey ` set (get_or_empty (prevotes (run txh cs)) (pv_round pv))"
  shows "fst (add_prevote txh pv (run txh cs)) = Inr True \<and>
     tally_lookup (tx_blacklist (snd (add_prevote txh pv (run txh cs)))) r t =
       (if r = pv_round pv \<and> t \<in> set (pv_invalid_txs pv)
        then Some (tally_value (tx_blacklist (run txh cs)) r t + 1)
        else tally_lookup (tx_blacklist (run txh cs)) r t) \<and>
     get_candidate (run txh cs) None = None \<and>
     (get_candidate (run txh cs) (pv_hash pv) = None \<longrightarrow>
        tally_lookup (tx_whitelist (snd (add_prevote txh pv (run txh cs)))) r t =
          tally_lookup (tx_whitelist (run txh cs)) r t \<and>
        get_valid_txs (snd (add_prevote txh pv (run txh cs))) r th =
          get_valid_txs (run txh cs) r th \<and>
        tx_whitelist (snd (add_prevote txh pv (run txh cs))) =
          (if prevotes (run txh cs) (pv_round pv) = None
           then (tx_whitelist (run txh cs))(pv_round pv \<mapsto> [])
           else tx_whitelist (run txh cs)))"
proof -
  let ?s = "run txh cs"
  have al: "rounds_aligned ?s" by (rule rounds_aligned_run)
  have eq: "add_prevote txh pv ?s = (Inr True, recorded txh pv ?s)"
    using al new by (rule add_prevote_recorded)
  have bl: "tally_lookup (tx_blacklist (recorded txh pv ?s)) r t =
       (if r = pv_round pv \<and> t \<in> set (pv_invalid_txs pv)
        then Some (tally_value (tx_blacklist ?s) r t + 1)
        else tally_lookup (tx_blacklist ?s) r t)"
    by (simp add: recorded_def tally_lookup_bumped [OF distinct_py_set] set_py_set)
  have wl: "tx_whitelist (recorded txh pv ?s) =
          (if prevotes ?s (pv_round pv) = None
           then (tx_whitelist ?s)(pv_round pv \<mapsto> [])
           else tx_whitelist ?s)"
    if "get_candidate ?s (pv_hash pv) = None"
  proof -
    from that have g: "good_txs txh pv ?s = []" by (simp add: good_txs_def)
    show ?thesis
    proof (cases "prevotes ?s (pv_round pv)")
      case None
      with al have "tx_whitelist ?s (pv_round pv) = None" by (simp add: rounds_aligned_def)
      with None show ?thesis by (simp add: recorded_def g get_or_empty_def)
    next
      case (Some vs)
      with al obtain d where "tx_whitelist ?s (pv_round pv) = Some d"
        by (fastforce simp: rounds_aligned_def)
      with Some show ?thesis by (simp add: recorded_def g get_or_empty_def fun_upd_idem)
    qed
  qed
  have wl_look: "tally_lookup (tx_whitelist (recorded txh pv ?s)) r t =
      tally_lookup (tx_whitelist ?s) r t"
    and wl_valid: "get_valid_txs (recorded txh pv ?s) r th = get_valid_txs ?s r th"
    if "get_candidate ?s (pv_hash pv) = None"
  proof -
    have none: "prevotes ?s (pv_round pv) = None \<Longrightarrow> tx_whitelist ?s (pv_round pv) = None"
      using al by (simp add: rounds_aligned_def)
    show "tally_lookup (tx_whitelist (recorded txh pv ?s)) r t = tally_lookup (tx_whitelist ?s) r t"
      using none by (simp add: wl [OF that] tally_lookup_def)
    show "get_valid_txs (recorded txh pv ?s) r th = get_valid_txs ?s r th"
      using none by (simp add: get_valid_txs_def wl [OF that] get_or_empty_def)
  qed
  show ?thesis
    unfolding eq using bl wl wl_look wl_valid
    by (simp add: get_candidate_def)
qed

text \<open>
  A nil prevote flagging \<open>tx2\<close> and \<open>tx_bad\<close> raises both blacklist counters and leaves the
  whitelist as it was.
\<close>

theorem blacklist_tally_on_prevote_witness:
  "fst (add_prevote (\<lambda>tx. tx) prevote_L_nil (run (\<lambda>tx. tx) calls_1)) = Inr True \<and>
   tally_lookup (tx_blacklist (snd (add_prevote (\<lambda>tx. tx) prevote_L_nil (run (\<lambda>tx. tx) calls_1))))
     0 tx_bad = Some 2 \<and>
   tally_lookup (tx_blacklist (snd (add_prevote (\<lambda>tx. tx) prevote_L_nil (run (\<lambda>tx. tx) calls_1))))
     0 tx2 = Some 1 \<and>
   tx_whitelist (snd (add_prevote (\<lambda>tx. tx) prevote_L_nil (run (\<lambda>tx. tx) calls_1))) =
     tx_whitelist (run (\<lambda>tx. tx) calls_1)"
proof -
  have new: "pv_pubkey prevote_L_nil \<notin> vote_pubkey `
      set (get_or_empty (prevotes (run (\<lambda>tx. tx) calls_1)) (pv_round prevote_L_nil))"
    by (simp add: log_1_fields [unfolded log_1_def] get_or_empty_def prevote_L_nil_def
        distinct_examples)
  have cand: "get_candidate (run (\<lambda>tx. tx) calls_1) (pv_hash prevote_L_nil) = None"
    by (simp add: get_candidate_def prevote_L_nil_def)
  have old: "tally_value (tx_blacklist (run (\<lambda>tx. tx) calls_1)) 0 tx_bad = 1"
    "tally_value (tx_blacklist (run (\<lambda>tx. tx) calls_1)) 0 tx2 = 0"
    "prevotes (run (\<lambda>tx. tx) calls_1) 0 \<noteq> None"
    by (simp_all add: tally_value_def tally_lookup_def log_1_fields [unfolded log_1_def]
        distinct_examples)
  show ?thesis
    using blacklist_tally_on_prevote [OF new, of 0 tx_bad 0]
      blacklist_tally_on_prevote [OF new, of 0 tx2 0] old cand
    by (simp add: prevote_L_nil_def)
qed

text \<open>
  Claim C6 (tally bound). In a log reached by any sequence of calls, every counter found in
  the whitelist or in the blacklist of a round \<open>R\<close>, looked up by hash or listed among the
  entries of the table, is at most the number of prevotes recorded for \<open>R\<close>.
\<close>

theorem tally_counters_bounded_by_prevotes:
  "(tally_lookup (tx_whitelist (run txh cs)) R t = Some c \<longrightarrow> c \<le> count_prevotes (run txh cs) R) \<and>
   (tally_lookup (tx_blacklist (run txh cs)) R t = Some c \<longrightarrow> c \<le> count_prevotes (run txh cs) R) \<and>
   list_all (\<lambda>x. snd x \<le> count_prevotes (run txh cs) R)
     (get_or_empty (tx_whitelist (run txh cs)) R) \<and>
   list_all (\<lambda>x. snd x \<le> count_prevotes (run txh cs) R)
     (get_or_empty (tx_blacklist (run txh cs)) R)"
proof -
  let ?s = "run txh cs"
  have inv: "log_inv ?s" by (rule log_inv_run)
  have look: "tally_lookup tbl R t' = Some c' \<Longrightarrow> c' \<le> count_prevotes ?s R"
    if "tally_bounded tbl (prevotes ?s)" for tbl t' c'
    using that by (simp add: tally_bounded_def count_prevotes_def)
  have entries: "list_all (\<lambda>x. snd x \<le> count_prevotes ?s R) (get_or_empty tbl R)"
    if b: "tally_bounded tbl (prevotes ?s)" and k: "keys_distinct tbl" for tbl
    unfolding list_all_iff
  proof
    fix x assume x: "x \<in> set (get_or_empty tbl R)"
    from k have "distinct (map fst (get_or_empty tbl R))" by (simp add: keys_distinct_def)
    with x have "map_of (get_or_empty tbl R) (fst x) = Some (snd x)" by simp
    moreover from x obtain d where "tbl R = Some d"
      by (cases "tbl R") (auto simp: get_or_empty_def)
    ultimately have "tally_lookup tbl R (fst x) = Some (snd x)"
      by (simp add: tally_lookup_def get_or_empty_def)
    with look [OF b] show "snd x \<le> count_prevotes ?s R" .
  qed
  from inv have w: "tally_bounded (tx_whitelist ?s) (prevotes ?s)"
    and b: "tally_bounded (tx_blacklist ?s) (prevotes ?s)"
    and kw: "keys_distinct (tx_whitelist ?s)" and kb: "keys_distinct (tx_blacklist ?s)"
    by (simp_all add: log_inv_def)
  show ?thesis
    using look [OF w] look [OF b] entries [OF w kw] entries [OF b kb]
    by simp
qed

text \<open>
  After one prevote the counters of the round are 1.
\<close>

theorem tally_counters_bounded_by_prevotes_witness:
  "tally_lookup (tx_whitelist (run (\<lambda>tx. tx) calls_1)) 0 tx1 = Some 1 \<and>
   tally_lookup (tx_blacklist (run (\<lambda>tx. tx) calls_1)) 0 tx_bad = Some 1 \<and>
   1 \<le> count_prevotes (run (\<lambda>tx. tx) calls_1) 0"
proof -
  have "tally_lookup (tx_whitelist (run (\<lambda>tx. tx) calls_1)) 0 tx1 = Some 1"
    and "tally_lookup (tx_blacklist (run (\<lambda>tx. tx) calls_1)) 0 tx_bad = Some 1"
    by (simp_all add: tally_lookup_def log_1_fields [unfolded log_1_def])
  then show ?thesis
    using tally_counters_bounded_by_prevotes [of "\<lambda>tx. tx" calls_1 0 tx1 1]
    by simp
qed

text \<open>
  Claim C9 (queries on unseen keys). The queries have a value for every argument, none
  raises. In every log, the counts of a round with no recorded votes are 0, an unknown hash
  and the nil hash have no candidate, and \<^verbatim>\<open>get_invalid_txs\<close> and \<^verbatim>\<open>get_valid_txs\<close>
  are empty for a round without a table; in a log reached by a sequence of calls they are
  empty for every round that has no prevotes.
\<close>

theorem queries_total_on_unseen_keys:
  "(prevotes s R = None \<longrightarrow> count_prevotes s R = 0 \<and> count_prevotes_for s R h = 0) \<and>
   (precommits s R = None \<longrightarrow> count_precommits s R = 0 \<and> count_precommits_for s R h = 0) \<and>
   (proposals s k = None \<longrightarrow> get_candidate s (Some k) = None) \<and>
   get_candidate s None = None \<and>
   (tx_blacklist s R = None \<longrightarrow> get_invalid_txs s R th = []) \<and>
   (tx_whitelist s R = None \<longrightarrow> get_valid_txs s R th = []) \<and>
   (prevotes (run txh cs) R = None \<longrightarrow>
      get_invalid_txs (run txh cs) R th = [] \<and> get_valid_txs (run txh cs) R th = [])"
proof -
  have "prevotes (run txh cs) R = None \<Longrightarrow>
      tx_blacklist (run txh cs) R = None \<and> tx_whitelist (run txh cs) R = None"
    using rounds_aligned_run [of txh cs] by (simp add: rounds_aligned_def)
  then show ?thesis
    by (simp add: count_prevotes_def count_prevotes_for_def count_precommits_def
        count_precommits_for_def get_candidate_def get_invalid_txs_def get_valid_txs_def
        get_or_empty_def)
qed

text \<open>
  Round 7 was never opened, round 0 has no precommits, and \<open>hash_H2\<close> was never proposed.
\<close>

theorem queries_total_on_unseen_keys_witness:
  "count_prevotes log_1 7 = 0 \<and> count_prevotes_for log_1 7 (Some hash_H1) = 0 \<and>
   count_precommits log_1 0 = 0 \<and> count_precommits_for log_1 0 (Some hash_H1) = 0 \<and>
   get_candidate log_1 (Some hash_H2) = None \<and> get_candidate log_1 None = None \<and>
   get_invalid_txs log_1 7 0 = [] \<and> get_valid_txs log_1 7 0 = [] \<and>
   get_invalid_txs (run (\<lambda>tx. tx) calls_1) 7 0 = [] \<and>
   get_valid_txs (run (\<lambda>tx. tx) calls_1) 7 0 = []"
proof -
  have "prevotes log_1 7 = None" "precommits log_1 0 = None" "proposals log_1 hash_H2 = None"
    "tx_blacklist log_1 7 = None" "tx_whitelist log_1 7 = None"
    "prevotes (run (\<lambda>tx. tx) calls_1) 7 = None"
    by (simp_all add: log_1_fields log_1_fields [unfolded log_1_def] distinct_examples)
  then show ?thesis
    using queries_total_on_unseen_keys [of log_1 7 "Some hash_H1" hash_H2 0 "\<lambda>tx. tx" calls_1]
      queries_total_on_unseen_keys [of log_1 0 "Some hash_H1" hash_H2 0 "\<lambda>tx. tx" calls_1]
    by simp
qed

text \<open>
  Claim C10 (each hash counted once per prevote). In a log reached by a sequence of calls, a
  call of \<^verbatim>\<open>add_prevote\<close> that returns \<^verbatim>\<open>True\<close> leaves every blacklist counter and every
  whitelist counter (an absent one read as 0) either as it was or one higher, however
  often the hash occurs in \<^verbatim>\<open>invalid_txs\<close> or among the transactions of the block.
\<close>

theorem prevote_counts_each_hash_once:
  assumes "add_prevote txh pv (run txh cs) = (Inr True, s')"
  shows "tally_value (tx_blacklist (run txh cs)) r t \<le> tally_value (tx_blacklist s') r t \<and>
     tally_value (tx_blacklist s') r t \<le> tally_value (tx_blacklist (run txh cs)) r t + 1 \<and>
     tally_value (tx_whitelist (run txh cs)) r t \<le> tally_value (tx_whitelist s') r t \<and>
     tally_value (tx_whitelist s') r t \<le> tally_value (tx_whitelist (run txh cs)) r t + 1"
proof -
  from assms have "s' = recorded txh pv (run txh cs)"
    by (simp add: add_prevote_cases [OF rounds_aligned_run] split: if_splits)
  then show ?thesis
    by (simp add: recorded_def tally_value_bumped distinct_py_set distinct_good_txs)
qed

text \<open>
  The block holds \<open>tx1\<close> twice and the prevote names \<open>tx_bad\<close> twice: each counter is 1.
\<close>

theorem prevote_counts_each_hash_once_witness:
  "add_prevote (\<lambda>tx. tx) prevote_K_H1 (run (\<lambda>tx. tx) [Add_proposal proposal_H1]) =
     (Inr True, log_1) \<and>
   tally_value (tx_whitelist (run (\<lambda>tx. tx) [Add_proposal proposal_H1])) 0 tx1 = 0 \<and>
   tally_value (tx_whitelist log_1) 0 tx1 \<le> 1 \<and>
   tally_value (tx_blacklist log_1) 0 tx_bad \<le> 1"
proof -
  have step: "add_prevote (\<lambda>tx. tx) prevote_K_H1 (run (\<lambda>tx. tx) [Add_proposal proposal_H1]) =
     (Inr True, log_1)"
    by (simp add: examples evals)
  have old: "tally_value (tx_whitelist (run (\<lambda>tx. tx) [Add_proposal proposal_H1])) 0 tx1 = 0"
    "tally_value (tx_blacklist (run (\<lambda>tx. tx) [Add_proposal proposal_H1])) 0 tx_bad = 0"
    by (simp_all add: tally_value_def tally_lookup_def evals)
  show ?thesis
    using prevote_counts_each_hash_once [OF step, of 0 tx1]
      prevote_counts_each_hash_once [OF step, of 0 tx_bad] step old
    by simp
qed

end
